theory Spec2Isabelle
  imports Main "HOL-Library.Word"
begin

section \<open>The RedPacket contract\<close>

text \<open>
  The contract \<open>RedPacket\<close> (Solidity \<open>^0.8.0\<close>) holds one batch of ether and hands it
  out in \<open>count\<close> shares, one per caller of \<open>grabRedPacket\<close>. Its integers are
  \<open>uint256\<close> with checked arithmetic: an overflow or underflow reverts with
  \<open>Panic(0x11)\<close>, a division or modulus by zero with \<open>Panic(0x12)\<close>. A failed
  \<open>require\<close> reverts with its message. A revert discards every effect of the call.
\<close>

subsection \<open>Values, reverts and checked arithmetic\<close>

type_synonym u256 = "256 word"
type_synonym address = "160 word"

text \<open>
  What a call reverts with: \<open>Error(string)\<close>, the data of a failed \<open>require\<close>;
  \<open>Panic(uint256)\<close>; no data at all, as when a transfer fails for lack of ether or of
  gas (\<open>TransferFailed\<close>); any other data (\<open>Custom\<close>), which only a recipient's code
  can produce.
\<close>

datatype revert = Require string | Panic nat | TransferFailed | Custom "8 word list"

datatype event = Grabbed address u256

definition checked_mul :: "u256 \<Rightarrow> u256 \<Rightarrow> revert + u256" where
  "checked_mul a b = (if unat a * unat b < 2 ^ 256 then Inr (a * b) else Inl (Panic 0x11))"

definition checked_add :: "u256 \<Rightarrow> u256 \<Rightarrow> revert + u256" where
  "checked_add a b = (if unat a + unat b < 2 ^ 256 then Inr (a + b) else Inl (Panic 0x11))"

definition checked_sub :: "u256 \<Rightarrow> u256 \<Rightarrow> revert + u256" where
  "checked_sub a b = (if b \<le> a then Inr (a - b) else Inl (Panic 0x11))"

definition checked_div :: "u256 \<Rightarrow> u256 \<Rightarrow> revert + u256" where
  "checked_div a b = (if b = 0 then Inl (Panic 0x12) else Inr (a div b))"

definition checked_mod :: "u256 \<Rightarrow> u256 \<Rightarrow> revert + u256" where
  "checked_mod a b = (if b = 0 then Inl (Panic 0x12) else Inr (a mod b))"

text \<open>Sequencing of steps that may revert: the first revert ends the call.\<close>

definition and_then :: "revert + 'a \<Rightarrow> ('a \<Rightarrow> revert + 'b) \<Rightarrow> revert + 'b" where
  "and_then m f = (case m of Inl e \<Rightarrow> Inl e | Inr x \<Rightarrow> f x)"

subsection \<open>Storage\<close>

text \<open>
  The five state variables of the contract, followed by what a call changes outside of
  them: the ether the contract holds (\<open>balance\<close>, what \<open>transfer\<close> draws on), the
  transfers it has made (\<open>sent\<close>) and the events it has emitted (\<open>events\<close>). A
  Solidity mapping is total, with 0 for a key never written.
\<close>

record state =
  yideng :: address
  totalAmount :: u256
  count :: u256
  isEqual :: bool
  isGrabbed :: "address \<Rightarrow> u256"
  balance :: u256
  sent :: "(address \<times> u256) list"
  events :: "event list"

subsection \<open>The constructor\<close>

text \<open>
  \<open>constructor(uint256 _count, bool _isEqual) payable\<close>, called by \<open>sender\<close> with
  \<open>msg.value = val\<close>. The only check is on \<open>_count\<close>. The new contract holds the
  ether sent with the deployment.
\<close>

definition constructor :: "address \<Rightarrow> u256 \<Rightarrow> bool \<Rightarrow> u256 \<Rightarrow> revert + state" where
  "constructor sender cnt eq val =
     (if \<not> 0 < cnt then Inl (Require ''Count must be > 0'')
      else Inr \<lparr> yideng = sender, totalAmount = val, count = cnt, isEqual = eq,
                 isGrabbed = (\<lambda>_. 0), balance = val, sent = [], events = [] \<rparr>)"

subsection \<open>grabRedPacket\<close>

text \<open>
  The random branch up to \<open>amount = (rand % range) + min\<close>. \<open>rand\<close> is the digest
  \<open>uint256(keccak256(abi.encode(block.timestamp, block.prevrandao, msg.sender,
  totalAmount, count)))\<close>; the hash is not modelled, so every value of it is allowed.
\<close>

definition draw :: "state \<Rightarrow> u256 \<Rightarrow> revert + u256" where
  "draw s rand =
     and_then (checked_div (totalAmount s) (count s)) (\<lambda>avg.
     and_then (checked_mul avg 2) (\<lambda>maxv.
     and_then (checked_div avg 100) (\<lambda>minv.
     and_then (checked_sub maxv minv) (\<lambda>range.
     and_then (checked_mod rand range) (\<lambda>r.
     checked_add r minv)))))"

text \<open>
  The amount of one share: the three branches on \<open>count\<close> and \<open>isEqual\<close>, the random
  one ending with \<open>amount = amount > totalAmount ? totalAmount : amount\<close>.
\<close>

definition share :: "state \<Rightarrow> u256 \<Rightarrow> revert + u256" where
  "share s rand =
     (if count s = 1 then Inr (totalAmount s)
      else if isEqual s then checked_div (totalAmount s) (count s)
      else and_then (draw s rand) (\<lambda>amount.
             Inr (if amount > totalAmount s then totalAmount s else amount)))"

text \<open>
  \<open>payable(msg.sender).transfer(amount)\<close>. It reverts when the contract holds less
  than \<open>amount\<close> or when the recipient does not accept the ether. \<open>recv\<close> is the
  recipient's code: it is run on the state of the contract as it is when the ether
  arrives and returns the state it leaves behind, or what it reverts with. \<open>transfer\<close>
  forwards the revert data of the recipient, so the call then reverts with the same.
\<close>

definition transfer :: "(state \<Rightarrow> revert + state) \<Rightarrow> state \<Rightarrow> address \<Rightarrow> u256 \<Rightarrow> revert + state" where
  "transfer recv s to amount =
     (if balance s < amount then Inl TransferFailed
      else recv (s\<lparr> balance := balance s - amount, sent := sent s @ [(to, amount)] \<rparr>))"

text \<open>
  \<open>grabRedPacket()\<close> called by \<open>sender\<close>: the three \<open>require\<close>s in the order of the
  source, the write of \<open>isGrabbed\<close>, the amount, the transfer, and then the two
  updates and the event, on the storage as the transfer left it.
\<close>

definition grabRedPacket :: "(state \<Rightarrow> revert + state) \<Rightarrow> state \<Rightarrow> address \<Rightarrow> u256 \<Rightarrow> revert + state" where
  "grabRedPacket recv s sender rand =
     (if \<not> 0 < count s then Inl (Require ''All red packets grabbed'')
      else if \<not> 0 < totalAmount s then Inl (Require ''No money left'')
      else if \<not> isGrabbed s sender = 0 then Inl (Require ''Already grabbed'')
      else
        let s1 = s\<lparr> isGrabbed := (isGrabbed s)(sender := 1) \<rparr> in
        and_then (share s1 rand) (\<lambda>amount.
        and_then (transfer recv s1 sender amount) (\<lambda>s2.
        and_then (checked_sub (totalAmount s2) amount) (\<lambda>total.
        and_then (checked_sub (count s2) 1) (\<lambda>cnt.
        Inr (s2\<lparr> totalAmount := total, count := cnt,
                 events := events s2 @ [Grabbed sender amount] \<rparr>))))))"

subsection \<open>Calls and transactions\<close>

text \<open>
  \<open>transfer\<close> forwards a stipend of 2300 gas, too little for the recipient to write
  storage or to call back into the contract: the recipient accepts the ether, or it
  reverts with data of its choice, and leaves the contract as it is. A transaction is
  then a caller, the digest of its call and what the caller reverts with on receiving
  the ether (\<open>None\<close> when it accepts); a transaction that reverts leaves the state as
  it was.
\<close>

definition receiver :: "revert option \<Rightarrow> state \<Rightarrow> revert + state" where
  "receiver rej s = (case rej of None \<Rightarrow> Inr s | Some e \<Rightarrow> Inl e)"

type_synonym tx = "address \<times> u256 \<times> revert option"

fun apply_tx :: "state \<Rightarrow> tx \<Rightarrow> state" where
  "apply_tx s (sender, rand, rej) =
     (case grabRedPacket (receiver rej) s sender rand of Inl e \<Rightarrow> s | Inr s' \<Rightarrow> s')"

definition run :: "state \<Rightarrow> tx list \<Rightarrow> state" where
  "run s txs = foldl apply_tx s txs"

text \<open>
  A recipient with no limit on gas: while it receives the ether it may call the
  contract again, under any identity and any number of times (\<open>Call\<close>s nested in the
  \<open>Call\<close> that pays it), and then accept the ether or revert. A nested call that
  reverts is caught by the recipient and leaves the state as it was.
\<close>

datatype call = Call address u256 "call list" "revert option"

fun exec :: "call \<Rightarrow> state \<Rightarrow> revert + state"
  and execs :: "call list \<Rightarrow> state \<Rightarrow> state" where
  "exec (Call sender rand inner rej) s =
     grabRedPacket (\<lambda>s1. case rej of None \<Rightarrow> Inr (execs inner s1) | Some e \<Rightarrow> Inl e)
       s sender rand"
| "execs [] s = s"
| "execs (c # cs) s = (case exec c s of Inl e \<Rightarrow> execs cs s | Inr s' \<Rightarrow> execs cs s')"

text \<open>The identities marked as having grabbed, and the sum of the amounts sent.\<close>

definition claimed :: "state \<Rightarrow> address set" where
  "claimed s = {a. isGrabbed s a \<noteq> 0}"

definition paid :: "state \<Rightarrow> nat" where
  "paid s = sum_list (map (\<lambda>p. unat (snd p)) (sent s))"

section \<open>Properties\<close>

subsection \<open>Arithmetic of the random branch\<close>

lemma unat_lt: "unat (x::u256) < 2 ^ 256"
  using unsigned_less [of x] by simp

lemma two_le_count: "count s \<noteq> 1 \<Longrightarrow> 0 < count s \<Longrightarrow> 2 \<le> unat (count s)"
proof -
  assume a: "count s \<noteq> 1" and b: "0 < count s"
  have "unat (count s) \<noteq> 1" using a by (simp add: word_unat_eq_iff)
  moreover have "0 < unat (count s)" using b by (simp add: word_less_nat_alt)
  ultimately show ?thesis by arith
qed

lemma avg_bound:
  fixes T N :: u256
  assumes "2 \<le> unat N"
  shows "2 * (unat T div unat N) \<le> unat T"
proof -
  have "unat T div unat N \<le> unat T div 2"
    using assms by (intro div_le_mono2) auto
  then show ?thesis by arith
qed

lemma checked_mul_avg:
  fixes T N :: u256
  assumes "2 \<le> unat N"
  shows "checked_mul (T div N) 2 = Inr (T div N * 2)" and "unat (T div N * 2) = 2 * (unat T div unat N)"
proof -
  have b: "unat (T div N) * unat (2::u256) < 2 ^ 256"
    using avg_bound [OF assms, of T] unat_lt [of T] by (simp add: unat_div)
  then show "checked_mul (T div N) 2 = Inr (T div N * 2)"
    by (simp add: checked_mul_def)
  have "unat (T div N * 2) = unat (T div N) * unat (2::u256)"
    using b unat_mult_lem [of "T div N" 2] by simp
  then show "unat (T div N * 2) = 2 * (unat T div unat N)"
    by (simp add: unat_div)
qed

lemma range_unat:
  fixes a :: u256
  assumes "unat (a * 2) = 2 * unat a"
  shows "a div 100 \<le> a * 2" and "unat (a * 2 - a div 100) = 2 * unat a - unat a div 100"
proof -
  show le: "a div 100 \<le> a * 2"
    using assms by (simp add: word_le_nat_alt unat_div)
  show "unat (a * 2 - a div 100) = 2 * unat a - unat a div 100"
    using assms by (simp add: unat_sub [OF le] unat_div)
qed

lemma draw_zero:
  assumes "count s \<noteq> 1" and "unat (totalAmount s) < unat (count s)"
  shows "draw s rand = Inl (Panic 0x12)"
proof (cases "count s = 0")
  case True
  then show ?thesis by (simp add: draw_def and_then_def checked_div_def)
next
  case False
  have avg: "totalAmount s div count s = 0"
    using assms(2) by (simp add: word_less_nat_alt div_word_less)
  show ?thesis
    using False avg
    by (simp add: draw_def and_then_def checked_div_def checked_mul_def checked_sub_def checked_mod_def)
qed

lemma draw_pos:
  assumes "2 \<le> unat (count s)" and "unat (count s) \<le> unat (totalAmount s)"
  defines "avg \<equiv> unat (totalAmount s) div unat (count s)"
  shows "\<exists>a. draw s rand = Inr a \<and> unat a = unat rand mod (2 * avg - avg div 100) + avg div 100"
proof -
  let ?T = "totalAmount s" and ?N = "count s"
  let ?a = "?T div ?N"
  let ?range = "?a * 2 - ?a div 100"
  let ?r = "rand mod ?range"
  have n0: "?N \<noteq> 0" using assms(1) by auto
  have ua: "unat ?a = avg" by (simp add: avg_def unat_div)
  have avg_pos: "0 < avg" using assms(1,2) by (simp add: avg_def div_greater_zero_iff)
  note m = checked_mul_avg [OF assms(1), of ?T]
  have m2: "unat (?a * 2) = 2 * unat ?a" using m(2) by (simp add: unat_div)
  note rg = range_unat [OF m2]
  have urange: "unat ?range = 2 * avg - avg div 100" using rg(2) ua by simp
  have range_pos: "0 < unat ?range" using urange avg_pos by arith
  have range_ne: "?range \<noteq> 0" using range_pos by (auto simp: unat_eq_zero)
  have ur: "unat ?r = unat rand mod (2 * avg - avg div 100)" by (simp add: unat_mod urange)
  have lt: "unat ?r + unat (?a div 100) < 2 * avg"
  proof -
    have "unat ?r < 2 * avg - avg div 100" using ur range_pos urange by simp
    moreover have "unat (?a div 100) = avg div 100" by (simp add: unat_div avg_def)
    ultimately show ?thesis by arith
  qed
  have le_T: "2 * avg \<le> unat ?T" using avg_bound [OF assms(1), of ?T] by (simp add: avg_def)
  have no_ovf: "unat ?r + unat (?a div 100) < 2 ^ 256"
    using lt le_T unat_lt [of ?T] by arith
  have usum: "unat (?r + ?a div 100) = unat ?r + unat (?a div 100)"
    using no_ovf unat_add_lem [of ?r "?a div 100"] by simp
  have "draw s rand = Inr (?r + ?a div 100)"
    using n0 m(1) rg(1) range_ne no_ovf
    by (simp add: draw_def and_then_def checked_div_def checked_sub_def checked_mod_def checked_add_def)
  moreover have "unat (?r + ?a div 100) = unat rand mod (2 * avg - avg div 100) + avg div 100"
    using usum ur ua by (simp add: unat_div)
  ultimately show ?thesis by blast
qed

text \<open>What a draw that does not revert gives, in natural numbers.\<close>

lemma draw_Inr:
  assumes "count s \<noteq> 1" and "draw s rand = Inr a"
  defines "avg \<equiv> unat (totalAmount s) div unat (count s)"
  shows "0 < avg" and "unat a = unat rand mod (2 * avg - avg div 100) + avg div 100"
    and "avg div 100 \<le> unat a" and "unat a < 2 * avg" and "2 * avg \<le> unat (totalAmount s)"
proof -
  have ge: "unat (count s) \<le> unat (totalAmount s)"
    using draw_zero [OF assms(1), of rand] assms(2) by (cases "unat (totalAmount s) < unat (count s)") auto
  have n0: "count s \<noteq> 0"
    using assms(2) by (auto simp: draw_def and_then_def checked_div_def)
  then have two: "2 \<le> unat (count s)"
    using two_le_count [OF assms(1)] by (simp add: word_greater_zero_iff)
  show pos: "0 < avg" using two ge by (simp add: avg_def div_greater_zero_iff)
  from draw_pos [OF two ge, of rand] assms(2)
  show eq: "unat a = unat rand mod (2 * avg - avg div 100) + avg div 100"
    by (auto simp: avg_def)
  show "avg div 100 \<le> unat a" using eq by simp
  have "unat rand mod (2 * avg - avg div 100) < 2 * avg - avg div 100"
    using pos by (intro mod_less_divisor) arith
  then show "unat a < 2 * avg" using eq by arith
  show "2 * avg \<le> unat (totalAmount s)" using avg_bound [OF two] by (simp add: avg_def)
qed

lemma draw_isGrabbed [simp]: "draw (s\<lparr> isGrabbed := f \<rparr>) rand = draw s rand"
  by (simp add: draw_def)

lemma share_isGrabbed [simp]: "share (s\<lparr> isGrabbed := f \<rparr>) rand = share s rand"
  by (simp add: share_def cong: if_cong)

lemma share_le:
  assumes "share s rand = Inr a"
  shows "a \<le> totalAmount s"
proof (cases "count s = 1")
  case True
  then show ?thesis using assms by (simp add: share_def)
next
  case n1: False
  show ?thesis
  proof (cases "isEqual s")
    case True
    then have "a = totalAmount s div count s"
      using assms n1 by (auto simp: share_def checked_div_def split: if_splits)
    then show ?thesis by (simp add: word_le_nat_alt unat_div)
  next
    case False
    then show ?thesis
      using assms n1 by (auto simp: share_def and_then_def split: sum.splits if_splits)
  qed
qed

subsection \<open>One call, and runs of calls\<close>

lemma one_le_pos: "0 < (c::u256) \<Longrightarrow> 1 \<le> c"
  by (simp add: word_less_nat_alt word_le_nat_alt)

text \<open>One call whose recipient cannot call back, branch by branch.\<close>

lemma grab_receiver:
  "grabRedPacket (receiver rej) s who rand =
     (if count s = 0 then Inl (Require ''All red packets grabbed'')
      else if totalAmount s = 0 then Inl (Require ''No money left'')
      else if isGrabbed s who \<noteq> 0 then Inl (Require ''Already grabbed'')
      else case share s rand of
             Inl e \<Rightarrow> Inl e
           | Inr amount \<Rightarrow>
               if balance s < amount then Inl TransferFailed
               else case rej of
                      Some e \<Rightarrow> Inl e
                    | None \<Rightarrow>
                        Inr (s\<lparr> isGrabbed := (isGrabbed s)(who := 1),
                                 balance := balance s - amount,
                                 sent := sent s @ [(who, amount)],
                                 totalAmount := totalAmount s - amount,
                                 count := count s - 1,
                                 events := events s @ [Grabbed who amount] \<rparr>))"
proof -
  have sub: "\<And>a. share s rand = Inr a \<Longrightarrow> checked_sub (totalAmount s) a = Inr (totalAmount s - a)"
    using share_le by (simp add: checked_sub_def)
  have cnt: "count s \<noteq> 0 \<longrightarrow> checked_sub (count s) 1 = Inr (count s - 1)"
    using one_le_pos [of "count s"] by (simp add: checked_sub_def word_greater_zero_iff)
  show ?thesis
    using sub cnt
    by (auto simp: grabRedPacket_def Let_def and_then_def transfer_def receiver_def
          word_greater_zero_iff split: sum.splits option.splits)
qed

lemma grab_Inr:
  assumes "grabRedPacket (receiver rej) s who rand = Inr s'"
  obtains amount where "share s rand = Inr amount" and "count s \<noteq> 0" and "totalAmount s \<noteq> 0"
    and "isGrabbed s who = 0" and "amount \<le> balance s" and "rej = None"
    and "s' = s\<lparr> isGrabbed := (isGrabbed s)(who := 1),
                   balance := balance s - amount,
                   sent := sent s @ [(who, amount)],
                   totalAmount := totalAmount s - amount,
                   count := count s - 1,
                   events := events s @ [Grabbed who amount] \<rparr>"
  using assms unfolding grab_receiver
  by (auto split: if_splits sum.splits option.splits simp: not_less)

lemma run_Nil [simp]: "run s [] = s"
  by (simp add: run_def)

lemma run_snoc [simp]: "run s (txs @ [t]) = apply_tx (run s txs) t"
  by (simp add: run_def)

lemma run_Cons [simp]: "run s (t # txs) = run (apply_tx s t) txs"
  by (simp add: run_def)

lemma apply_tx_cases:
  obtains (reverted) e where "grabRedPacket (receiver (snd (snd t))) s (fst t) (fst (snd t)) = Inl e"
      and "apply_tx s t = s"
  | (committed) s' where "grabRedPacket (receiver (snd (snd t))) s (fst t) (fst (snd t)) = Inr s'"
      and "apply_tx s t = s'"
  by (cases t; cases "grabRedPacket (receiver (snd (snd t))) s (fst t) (fst (snd t))") auto

text \<open>An invariant of single calls holds after every run.\<close>

lemma run_invariant:
  assumes "P s"
    and "\<And>u who rand rej u'. P u \<Longrightarrow> grabRedPacket (receiver rej) u who rand = Inr u' \<Longrightarrow> P u'"
  shows "P (run s txs)"
proof (induction txs rule: rev_induct)
  case Nil
  then show ?case using assms(1) by simp
next
  case (snoc t txs)
  show ?case
    using snoc assms(2) by (cases rule: apply_tx_cases [of t "run s txs"]) auto
qed

subsection \<open>Amounts\<close>

lemma share_small:
  assumes "share s rand = Inr a" and "count s \<noteq> 1" and "totalAmount s \<noteq> 0"
  shows "a < totalAmount s"
proof (cases "isEqual s")
  case True
  then have n0: "count s \<noteq> 0" and a: "a = totalAmount s div count s"
    using assms(1,2) by (auto simp: share_def checked_div_def split: if_splits)
  have two: "2 \<le> unat (count s)"
    using two_le_count [OF assms(2)] n0 by (simp add: word_greater_zero_iff)
  have "0 < unat (totalAmount s)" using assms(3) by (simp add: unat_gt_0)
  then have "unat (totalAmount s) div unat (count s) < unat (totalAmount s)"
    using two by (intro div_less_dividend) auto
  then show ?thesis by (simp add: a word_less_nat_alt unat_div)
next
  case False
  then obtain d where d: "draw s rand = Inr d"
    and a: "a = (if totalAmount s < d then totalAmount s else d)"
    using assms(1,2) by (auto simp: share_def and_then_def split: sum.splits)
  have "unat d < unat (totalAmount s)"
    using draw_Inr(4,5) [OF assms(2) d] by arith
  then show ?thesis using a by (simp add: word_less_nat_alt)
qed

lemma constructor_Inr:
  "cnt \<noteq> 0 \<Longrightarrow> projr (constructor sender cnt eq val) =
     \<lparr> yideng = sender, totalAmount = val, count = cnt, isEqual = eq,
       isGrabbed = (\<lambda>_. 0), balance = val, sent = [], events = [] \<rparr>"
  by (simp add: constructor_def word_greater_zero_iff)

lemmas eval_defs = constructor_Inr grab_receiver share_def draw_def and_then_def
  checked_div_def checked_mul_def checked_sub_def checked_mod_def checked_add_def

subsection \<open>Equal mode\<close>

text \<open>
  Claim C7. In equal mode a call that succeeds while at least two shares are left sends
  \<open>totalAmount div count\<close>, both read before the call, and the call that takes the last
  share sends all of \<open>totalAmount\<close>. The amount depends on the state alone, not on the
  caller or on the digest.
\<close>

theorem equal_mode_payout:
  assumes "isEqual s" and "grabRedPacket (receiver rej) s who rand = Inr s'"
  shows "sent s' = sent s @ [(who, if count s = 1 then totalAmount s else totalAmount s div count s)]"
proof -
  from assms(2) obtain amount where a: "share s rand = Inr amount"
    and s': "sent s' = sent s @ [(who, amount)]" and n0: "count s \<noteq> 0"
    by (rule grab_Inr) simp
  have "amount = (if count s = 1 then totalAmount s else totalAmount s div count s)"
    using a assms(1) n0 by (auto simp: share_def checked_div_def split: if_splits)
  then show ?thesis using s' by simp
qed

theorem equal_mode_payout_witness:
  "isEqual (projr (constructor 1 3 True 100)) \<and>
   grabRedPacket (receiver None) (projr (constructor 1 3 True 100)) 7 0 =
     Inr (projr (grabRedPacket (receiver None) (projr (constructor 1 3 True 100)) 7 0)) \<and>
   sent (projr (grabRedPacket (receiver None) (projr (constructor 1 3 True 100)) 7 0)) = [(7, 33)]"
proof -
  let ?s = "projr (constructor 1 3 True 100)"
  have e: "isEqual ?s" by (simp add: constructor_Inr)
  have g: "grabRedPacket (receiver None) ?s 7 0 = Inr (projr (grabRedPacket (receiver None) ?s 7 0))"
    by (simp add: constructor_Inr grab_receiver share_def checked_div_def)
  show ?thesis
    using equal_mode_payout [OF e g] e g by (simp add: constructor_Inr)
qed

subsection \<open>The last share\<close>

lemma drain_step:
  assumes "grabRedPacket (receiver rej) s who rand = Inr s'"
  shows "count s = 1 \<Longrightarrow> sent s' = sent s @ [(who, totalAmount s)] \<and> totalAmount s' = 0 \<and> count s' = 0"
    and "count s \<noteq> 1 \<Longrightarrow> count s' \<noteq> 0"
proof -
  from assms obtain amount where a: "share s rand = Inr amount" and n0: "count s \<noteq> 0"
    and s': "sent s' = sent s @ [(who, amount)]" "totalAmount s' = totalAmount s - amount"
      "count s' = count s - 1"
    by (rule grab_Inr) simp
  show "count s = 1 \<Longrightarrow> sent s' = sent s @ [(who, totalAmount s)] \<and> totalAmount s' = 0 \<and> count s' = 0"
    using a s' by (simp add: share_def)
  show "count s \<noteq> 1 \<Longrightarrow> count s' \<noteq> 0"
    using s'(3) by simp
qed

text \<open>
  Claim C6. In both modes the call that succeeds when \<open>count\<close> is 1 sends all of
  \<open>totalAmount\<close> and leaves \<open>totalAmount = 0\<close> and \<open>count = 0\<close>. In every state
  reached from a deployed contract by any transactions, \<open>count = 0\<close> implies
  \<open>totalAmount = 0\<close>.
\<close>

theorem terminal_drain:
  "(count s = 1 \<and> grabRedPacket (receiver rej) s who rand = Inr s' \<longrightarrow>
      sent s' = sent s @ [(who, totalAmount s)] \<and> totalAmount s' = 0 \<and> count s' = 0) \<and>
   (constructor c n eq v = Inr s0 \<and> count (run s0 txs) = 0 \<longrightarrow> totalAmount (run s0 txs) = 0)"
proof -
  have last: "count s = 1 \<and> grabRedPacket (receiver rej) s who rand = Inr s' \<longrightarrow>
      sent s' = sent s @ [(who, totalAmount s)] \<and> totalAmount s' = 0 \<and> count s' = 0"
    using drain_step(1) by blast
  have "totalAmount (run s0 txs) = 0"
    if h: "constructor c n eq v = Inr s0" "count (run s0 txs) = 0"
  proof -
    have "count (run s0 txs) = 0 \<longrightarrow> totalAmount (run s0 txs) = 0"
    proof (rule run_invariant [where P = "\<lambda>u. count u = 0 \<longrightarrow> totalAmount u = 0"])
      show "count s0 = 0 \<longrightarrow> totalAmount s0 = 0"
        using h(1) by (auto simp: constructor_def split: if_splits)
    next
      fix u who rand rej u'
      assume "grabRedPacket (receiver rej) u who rand = Inr u'"
      then show "count u' = 0 \<longrightarrow> totalAmount u' = 0"
        using drain_step [of rej u who rand u'] by (cases "count u = 1") auto
    qed
    then show ?thesis using h(2) by simp
  qed
  then show ?thesis using last by blast
qed

theorem terminal_drain_witness:
  "count (projr (constructor 1 1 False 5)) = 1 \<and>
   grabRedPacket (receiver None) (projr (constructor 1 1 False 5)) 7 0 =
     Inr (projr (grabRedPacket (receiver None) (projr (constructor 1 1 False 5)) 7 0)) \<and>
   sent (projr (grabRedPacket (receiver None) (projr (constructor 1 1 False 5)) 7 0)) = [(7, 5)] \<and>
   totalAmount (projr (grabRedPacket (receiver None) (projr (constructor 1 1 False 5)) 7 0)) = 0 \<and>
   count (projr (grabRedPacket (receiver None) (projr (constructor 1 1 False 5)) 7 0)) = 0 \<and>
   constructor 1 1 False 5 = Inr (projr (constructor 1 1 False 5)) \<and>
   count (run (projr (constructor 1 1 False 5)) [(7, 0, None)]) = 0 \<and>
   totalAmount (run (projr (constructor 1 1 False 5)) [(7, 0, None)]) = 0"
proof -
  let ?s = "projr (constructor 1 1 False 5)"
  have c: "constructor 1 1 False 5 = Inr ?s" by (simp add: constructor_def)
  have n: "count ?s = 1" by (simp add: constructor_Inr)
  have g: "grabRedPacket (receiver None) ?s 7 0 = Inr (projr (grabRedPacket (receiver None) ?s 7 0))"
    by (simp add: eval_defs)
  have z: "count (run ?s [(7, 0, None)]) = 0" by (simp add: eval_defs)
  show ?thesis
    using terminal_drain [of ?s None 7 0 "projr (grabRedPacket (receiver None) ?s 7 0)"
        1 1 False 5 ?s "[(7, 0, None)]"] c n g z
    by (simp add: constructor_Inr)
qed

subsection \<open>Random mode\<close>

text \<open>
  Claim C8. In random mode a call that succeeds while at least two shares are left sends
  an amount \<open>p\<close> with \<open>min \<le> p \<le> totalAmount\<close>, where \<open>min\<close> is
  \<open>(totalAmount div count) div 100\<close>, and \<open>p\<close> is at most \<open>max\<close>, twice
  \<open>totalAmount div count\<close>, whatever the digest.
\<close>

theorem random_mode_bounds:
  assumes "\<not> isEqual s" and "count s \<noteq> 1" and "grabRedPacket (receiver rej) s who rand = Inr s'"
  shows "\<exists>p. sent s' = sent s @ [(who, p)] \<and>
             totalAmount s div count s div 100 \<le> p \<and> p \<le> totalAmount s \<and>
             unat p \<le> 2 * (unat (totalAmount s) div unat (count s))"
proof -
  from assms(3) obtain p where a: "share s rand = Inr p" and s': "sent s' = sent s @ [(who, p)]"
    by (rule grab_Inr) simp
  from a assms(1,2) obtain d where d: "draw s rand = Inr d"
    and p: "p = (if totalAmount s < d then totalAmount s else d)"
    by (auto simp: share_def and_then_def split: sum.splits)
  note b = draw_Inr [OF assms(2) d]
  have pd: "p = d" using p b(4,5) by (simp add: word_less_nat_alt)
  have "totalAmount s div count s div 100 \<le> p"
    using b(3) pd by (simp add: word_le_nat_alt unat_div)
  moreover have "p \<le> totalAmount s" using a by (rule share_le)
  moreover have "unat p \<le> 2 * (unat (totalAmount s) div unat (count s))"
    using b(4) pd by simp
  ultimately show ?thesis using s' by blast
qed

theorem random_mode_bounds_witness:
  "\<not> isEqual (projr (constructor 1 2 False 100)) \<and>
   count (projr (constructor 1 2 False 100)) \<noteq> 1 \<and>
   grabRedPacket (receiver None) (projr (constructor 1 2 False 100)) 7 199 =
     Inr (projr (grabRedPacket (receiver None) (projr (constructor 1 2 False 100)) 7 199)) \<and>
   (\<exists>p. sent (projr (grabRedPacket (receiver None) (projr (constructor 1 2 False 100)) 7 199)) =
          [(7, p)] \<and> 0 \<le> p \<and> p \<le> 100 \<and> unat p \<le> 100)"
proof -
  let ?s = "projr (constructor 1 2 False 100)"
  have e: "\<not> isEqual ?s" by (simp add: constructor_Inr)
  have n: "count ?s \<noteq> 1" by (simp add: constructor_Inr)
  have g: "grabRedPacket (receiver None) ?s 7 199 = Inr (projr (grabRedPacket (receiver None) ?s 7 199))"
    by (simp add: eval_defs)
  show ?thesis
    using random_mode_bounds [OF e n g] e n g by (simp add: constructor_Inr)
qed

subsection \<open>The pool is not empty while shares are left\<close>

lemma share_leaves_some:
  assumes "share s rand = Inr p" and "count s \<noteq> 1" and "totalAmount s \<noteq> 0"
  shows "totalAmount s - p \<noteq> 0"
proof -
  have "p < totalAmount s" using assms by (rule share_small)
  then have "p \<noteq> totalAmount s" by auto
  then show ?thesis by simp
qed

lemma positive_step:
  assumes "grabRedPacket (receiver rej) u who rand = Inr u'"
  shows "0 < count u' \<longrightarrow> 0 < totalAmount u'"
proof (cases "count u = 1")
  case True
  then show ?thesis using drain_step(1) [OF assms] by simp
next
  case False
  from assms obtain p where a: "share u rand = Inr p" and t0: "totalAmount u \<noteq> 0"
    and u': "totalAmount u' = totalAmount u - p"
    by (rule grab_Inr) simp
  show ?thesis using share_leaves_some [OF a False t0] u' by (simp add: word_greater_zero_iff)
qed

lemma share_not_Require: "share s rand \<noteq> Inl (Require m)"
  by (auto simp: share_def draw_def and_then_def checked_div_def checked_mul_def checked_sub_def
        checked_mod_def checked_add_def split: sum.splits)

lemma checked_sub_not_Require: "checked_sub a b \<noteq> Inl (Require m)"
  by (simp add: checked_sub_def)

text \<open>
  A call reverts with \<open>No money left\<close> when its second \<open>require\<close> fails, or when
  the recipient of its transfer reverts with that message.
\<close>

lemma grab_no_money:
  assumes "grabRedPacket recv s who rand = Inl (Require ''No money left'')"
  shows "(0 < count s \<and> totalAmount s = 0) \<or> (\<exists>u. recv u = Inl (Require ''No money left''))"
  using assms share_not_Require checked_sub_not_Require
  by (auto simp: grabRedPacket_def Let_def and_then_def transfer_def word_greater_zero_iff
        split: sum.splits if_splits)

lemma revert_forwarded:
  "grabRedPacket (receiver (Some (Require ''No money left''))) (projr (constructor 1 2 True 100)) 7 0 =
     Inl (Require ''No money left'')"
  by (simp add: eval_defs)

text \<open>
  Claim C10. A call that succeeds while at least two shares are left sends strictly less
  than \<open>totalAmount\<close>, in both modes. So a contract deployed with \<open>msg.value > 0\<close> keeps
  \<open>totalAmount > 0\<close> as long as \<open>count > 0\<close>: the \<open>require\<close> on \<open>totalAmount\<close>
  never fails on it, and a call on it reverts with \<open>No money left\<close> only if the
  recipient of its transfer reverts with that message. In the random branch the amount
  drawn never exceeds \<open>totalAmount\<close>, so the comparison before the transfer never
  replaces it.
\<close>

theorem pool_never_empty:
  "(count s \<noteq> 1 \<and> grabRedPacket (receiver rej) s who rand = Inr s' \<longrightarrow>
      (\<exists>p. sent s' = sent s @ [(who, p)] \<and> p < totalAmount s) \<and> 0 < totalAmount s') \<and>
   (constructor c n eq v = Inr s0 \<and> 0 < v \<longrightarrow>
      (0 < count (run s0 txs) \<longrightarrow> 0 < totalAmount (run s0 txs)) \<and>
      ((\<forall>u. recv u \<noteq> Inl (Require ''No money left'')) \<longrightarrow>
         grabRedPacket recv (run s0 txs) caller r \<noteq> Inl (Require ''No money left''))) \<and>
   (count s \<noteq> 1 \<and> draw s rand = Inr amount \<longrightarrow> \<not> amount > totalAmount s)"
proof -
  have step: "(\<exists>p. sent s' = sent s @ [(who, p)] \<and> p < totalAmount s) \<and> 0 < totalAmount s'"
    if h: "count s \<noteq> 1" "grabRedPacket (receiver rej) s who rand = Inr s'"
  proof -
    from h(2) obtain p where a: "share s rand = Inr p" and t0: "totalAmount s \<noteq> 0"
      and s': "sent s' = sent s @ [(who, p)]" "totalAmount s' = totalAmount s - p"
      by (rule grab_Inr) simp
    have "p < totalAmount s" using a h(1) t0 by (rule share_small)
    moreover have "0 < totalAmount s'"
      using share_leaves_some [OF a h(1) t0] s'(2) by (simp add: word_greater_zero_iff)
    ultimately show ?thesis using s'(1) by blast
  qed
  have reach: "(0 < count (run s0 txs) \<longrightarrow> 0 < totalAmount (run s0 txs)) \<and>
      ((\<forall>u. recv u \<noteq> Inl (Require ''No money left'')) \<longrightarrow>
         grabRedPacket recv (run s0 txs) caller r \<noteq> Inl (Require ''No money left''))"
    if h: "constructor c n eq v = Inr s0" "0 < v"
  proof -
    have inv: "0 < count (run s0 txs) \<longrightarrow> 0 < totalAmount (run s0 txs)"
    proof (rule run_invariant [where P = "\<lambda>u. 0 < count u \<longrightarrow> 0 < totalAmount u"])
      show "0 < count s0 \<longrightarrow> 0 < totalAmount s0"
        using h by (auto simp: constructor_def split: if_splits)
    qed (rule positive_step)
    have "grabRedPacket recv (run s0 txs) caller r \<noteq> Inl (Require ''No money left'')"
      if "\<forall>u. recv u \<noteq> Inl (Require ''No money left'')"
      using inv that grab_no_money [of recv "run s0 txs" caller r]
      by (auto simp: word_greater_zero_iff)
    then show ?thesis using inv by blast
  qed
  have clamp: "\<not> amount > totalAmount s" if h: "count s \<noteq> 1" "draw s rand = Inr amount"
  proof -
    have "unat amount < unat (totalAmount s)"
      using draw_Inr(4,5) [OF h] by simp
    then show ?thesis by (simp add: word_less_nat_alt)
  qed
  show ?thesis using step reach clamp by blast
qed

theorem pool_never_empty_witness:
  "count (projr (constructor 1 2 False 100)) \<noteq> 1 \<and>
   grabRedPacket (receiver None) (projr (constructor 1 2 False 100)) 7 199 =
     Inr (projr (grabRedPacket (receiver None) (projr (constructor 1 2 False 100)) 7 199)) \<and>
   (\<exists>p. sent (projr (grabRedPacket (receiver None) (projr (constructor 1 2 False 100)) 7 199)) =
          [(7, p)] \<and> p < 100) \<and>
   0 < totalAmount (projr (grabRedPacket (receiver None) (projr (constructor 1 2 False 100)) 7 199)) \<and>
   constructor 1 2 False 100 = Inr (projr (constructor 1 2 False 100)) \<and> (0::u256) < 100 \<and>
   0 < count (run (projr (constructor 1 2 False 100)) [(7, 199, None)]) \<and>
   0 < totalAmount (run (projr (constructor 1 2 False 100)) [(7, 199, None)]) \<and>
   (\<forall>u. receiver None u \<noteq> Inl (Require ''No money left'')) \<and>
   grabRedPacket (receiver None) (run (projr (constructor 1 2 False 100)) [(7, 199, None)]) 8 5
     \<noteq> Inl (Require ''No money left'') \<and>
   draw (projr (constructor 1 2 False 100)) 199 = Inr 99 \<and>
   \<not> 99 > totalAmount (projr (constructor 1 2 False 100))"
proof -
  let ?s = "projr (constructor 1 2 False 100)"
  have c: "constructor 1 2 False 100 = Inr ?s" by (simp add: constructor_def)
  have n: "count ?s \<noteq> 1" by (simp add: constructor_Inr)
  have g: "grabRedPacket (receiver None) ?s 7 199 = Inr (projr (grabRedPacket (receiver None) ?s 7 199))"
    by (simp add: eval_defs)
  have k: "0 < count (run ?s [(7, 199, None)])" by (simp add: eval_defs)
  have d: "draw ?s 199 = Inr 99" by (simp add: eval_defs)
  have a: "\<forall>u. receiver None u \<noteq> Inl (Require ''No money left'')" by (simp add: receiver_def)
  show ?thesis
    using pool_never_empty [of ?s None 7 199 "projr (grabRedPacket (receiver None) ?s 7 199)"
        1 2 False 100 ?s "[(7, 199, None)]" "receiver None" 8 5 99] c n g k d a
    by (simp add: constructor_Inr)
qed

subsection \<open>The ledger\<close>

lemma claimed_step:
  assumes "grabRedPacket (receiver rej) s who rand = Inr s'"
  shows "who \<notin> claimed s" and "claimed s' = insert who (claimed s)"
    and "unat (count s') + 1 = unat (count s)" and "count s' \<le> count s"
    and "totalAmount s' \<le> totalAmount s"
proof -
  from assms obtain a where a: "share s rand = Inr a" and n0: "count s \<noteq> 0"
    and g: "isGrabbed s who = 0"
    and s': "isGrabbed s' = (isGrabbed s)(who := 1)" "totalAmount s' = totalAmount s - a"
      "count s' = count s - 1"
    by (rule grab_Inr) simp
  show "who \<notin> claimed s" using g by (simp add: claimed_def)
  show "claimed s' = insert who (claimed s)" using s'(1) by (auto simp: claimed_def)
  have u: "unat (count s - 1) = unat (count s) - 1" using n0 by (rule unat_minus_one)
  have pos: "0 < unat (count s)" using n0 by (simp add: unat_gt_0)
  show "unat (count s') + 1 = unat (count s)" using u pos s'(3) by simp
  show "count s' \<le> count s" using u s'(3) by (simp add: word_le_nat_alt)
  have "a \<le> totalAmount s" using a by (rule share_le)
  then show "totalAmount s' \<le> totalAmount s"
    using s'(2) by (simp add: word_le_nat_alt unat_sub)
qed

text \<open>
  Claim C9. After every run from a deployed contract the number of identities marked in
  \<open>isGrabbed\<close> is the initial \<open>count\<close> minus the current one. No transaction unmarks
  an identity or increases \<open>totalAmount\<close> or \<open>count\<close>. A call that succeeds marks its
  caller, who was not marked before, and decreases \<open>count\<close> by exactly one.
\<close>

theorem ledger_invariants:
  "(constructor c n eq v = Inr s0 \<longrightarrow>
      card (claimed (run s0 txs)) = unat n - unat (count (run s0 txs)) \<and>
      count (run s0 txs) \<le> n) \<and>
   claimed s \<subseteq> claimed (apply_tx s t) \<and>
   totalAmount (apply_tx s t) \<le> totalAmount s \<and>
   count (apply_tx s t) \<le> count s \<and>
   (grabRedPacket (receiver rej) s who rand = Inr s' \<longrightarrow>
      who \<notin> claimed s \<and> claimed s' = insert who (claimed s) \<and>
      unat (count s') + 1 = unat (count s))"
proof -
  have reach: "card (claimed (run s0 txs)) = unat n - unat (count (run s0 txs)) \<and>
      count (run s0 txs) \<le> n"
    if h: "constructor c n eq v = Inr s0"
  proof -
    have "card (claimed (run s0 txs)) + unat (count (run s0 txs)) = unat n"
    proof (rule run_invariant [where P = "\<lambda>u. card (claimed u) + unat (count u) = unat n"])
      show "card (claimed s0) + unat (count s0) = unat n"
        using h by (auto simp: constructor_def claimed_def split: if_splits)
    next
      fix u who rand rej u'
      assume p: "card (claimed u) + unat (count u) = unat n"
        and g: "grabRedPacket (receiver rej) u who rand = Inr u'"
      have "card (claimed u') = Suc (card (claimed u))"
        using claimed_step(1,2) [OF g] by simp
      then show "card (claimed u') + unat (count u') = unat n"
        using p claimed_step(3) [OF g] by simp
    qed
    then show ?thesis by (simp add: word_le_nat_alt)
  qed
  have step: "claimed s \<subseteq> claimed (apply_tx s t) \<and>
      totalAmount (apply_tx s t) \<le> totalAmount s \<and> count (apply_tx s t) \<le> count s"
  proof (cases rule: apply_tx_cases [of t s])
    case (reverted e)
    then show ?thesis by simp
  next
    case (committed u)
    then show ?thesis using claimed_step(2,4,5) [OF committed(1)] by auto
  qed
  have one: "who \<notin> claimed s \<and> claimed s' = insert who (claimed s) \<and>
      unat (count s') + 1 = unat (count s)"
    if "grabRedPacket (receiver rej) s who rand = Inr s'"
    using claimed_step(1,2,3) [OF that] by simp
  show ?thesis using reach step one by blast
qed

theorem ledger_invariants_witness:
  "constructor 1 2 True 100 = Inr (projr (constructor 1 2 True 100)) \<and>
   card (claimed (run (projr (constructor 1 2 True 100)) [(7, 0, None), (7, 0, None)])) =
     unat (2::u256) - unat (count (run (projr (constructor 1 2 True 100)) [(7, 0, None), (7, 0, None)])) \<and>
   count (run (projr (constructor 1 2 True 100)) [(7, 0, None), (7, 0, None)]) = 1 \<and>
   grabRedPacket (receiver None) (projr (constructor 1 2 True 100)) 7 0 =
     Inr (projr (grabRedPacket (receiver None) (projr (constructor 1 2 True 100)) 7 0)) \<and>
   7 \<notin> claimed (projr (constructor 1 2 True 100)) \<and>
   claimed (projr (grabRedPacket (receiver None) (projr (constructor 1 2 True 100)) 7 0)) = {7} \<and>
   unat (count (projr (grabRedPacket (receiver None) (projr (constructor 1 2 True 100)) 7 0))) + 1 = 2"
proof -
  let ?s = "projr (constructor 1 2 True 100)"
  have c: "constructor 1 2 True 100 = Inr ?s" by (simp add: constructor_def)
  have g: "grabRedPacket (receiver None) ?s 7 0 = Inr (projr (grabRedPacket (receiver None) ?s 7 0))"
    by (simp add: eval_defs)
  have k: "count (run ?s [(7, 0, None), (7, 0, None)]) = 1" by (simp add: eval_defs)
  have e: "claimed ?s = {}" by (simp add: claimed_def constructor_Inr)
  show ?thesis
    using ledger_invariants [of 1 2 True 100 ?s "[(7, 0, None), (7, 0, None)]" ?s "(7, 0, None)"
        None 7 0 "projr (grabRedPacket (receiver None) ?s 7 0)"] c g k e
    by (simp add: constructor_Inr)
qed

subsection \<open>Rejected calls\<close>

lemma marked_step:
  assumes "grabRedPacket (receiver rej) u w rand = Inr u'" and "isGrabbed u who \<noteq> 0"
  shows "isGrabbed u' who \<noteq> 0"
proof -
  from assms(1) have "isGrabbed u' = (isGrabbed u)(w := 1)"
    by (rule grab_Inr) simp
  then show ?thesis using assms(2) by simp
qed

lemma grab_marked:
  assumes "isGrabbed t who \<noteq> 0" and "0 < count t \<longrightarrow> 0 < totalAmount t"
  shows "grabRedPacket recv t who rand =
     Inl (if count t = 0 then Require ''All red packets grabbed'' else Require ''Already grabbed'')"
  using assms by (simp add: grabRedPacket_def word_greater_zero_iff)

text \<open>
  Claim C5, as the code has it. After a call by an identity has succeeded, every later
  call by that identity reverts, whatever was called in between: with
  \<open>All red packets grabbed\<close> when no share is left, since that \<open>require\<close> comes first,
  and with \<open>Already grabbed\<close> otherwise. A call that reverts leaves the state, and with
  it \<open>totalAmount\<close>, \<open>count\<close> and \<open>isGrabbed\<close>, as it was.
\<close>

theorem second_claim_rejected:
  "(grabRedPacket (receiver rej) s who rand = Inr s' \<longrightarrow>
      grabRedPacket recv (run s' txs) who rand' =
        Inl (if count (run s' txs) = 0 then Require ''All red packets grabbed''
             else Require ''Already grabbed'')) \<and>
   (grabRedPacket (receiver rej') u who' r = Inl e \<longrightarrow> apply_tx u (who', r, rej') = u)"
proof -
  have again: "grabRedPacket recv (run s' txs) who rand' =
        Inl (if count (run s' txs) = 0 then Require ''All red packets grabbed''
             else Require ''Already grabbed'')"
    if g: "grabRedPacket (receiver rej) s who rand = Inr s'"
  proof -
    let ?P = "\<lambda>u. isGrabbed u who \<noteq> 0 \<and> (0 < count u \<longrightarrow> 0 < totalAmount u)"
    have "?P (run s' txs)"
    proof (rule run_invariant [where P = ?P])
      have "isGrabbed s' = (isGrabbed s)(who := 1)" using g by (rule grab_Inr) simp
      then show "?P s'" using positive_step [OF g] by simp
    next
      fix u w rand rej u'
      assume "?P u" and "grabRedPacket (receiver rej) u w rand = Inr u'"
      then show "?P u'" using marked_step positive_step by blast
    qed
    then show ?thesis using grab_marked by blast
  qed
  have "apply_tx u (who', r, rej') = u" if "grabRedPacket (receiver rej') u who' r = Inl e"
    using that by simp
  then show ?thesis using again by blast
qed

theorem second_claim_rejected_witness:
  "grabRedPacket (receiver None) (projr (constructor 1 3 True 100)) 7 0 =
     Inr (projr (grabRedPacket (receiver None) (projr (constructor 1 3 True 100)) 7 0)) \<and>
   grabRedPacket (receiver None)
     (run (projr (grabRedPacket (receiver None) (projr (constructor 1 3 True 100)) 7 0)) [(8, 0, None)])
     7 5 = Inl (Require ''Already grabbed'') \<and>
   grabRedPacket (receiver (Some TransferFailed)) (projr (constructor 1 3 True 100)) 7 0 = Inl TransferFailed \<and>
   apply_tx (projr (constructor 1 3 True 100)) (7, 0, Some TransferFailed) = projr (constructor 1 3 True 100)"
proof -
  let ?s = "projr (constructor 1 3 True 100)"
  let ?s' = "projr (grabRedPacket (receiver None) ?s 7 0)"
  have g: "grabRedPacket (receiver None) ?s 7 0 = Inr ?s'" by (simp add: eval_defs)
  have k: "count (run ?s' [(8, 0, None)]) \<noteq> 0" by (simp add: eval_defs)
  have f: "grabRedPacket (receiver (Some TransferFailed)) ?s 7 0 = Inl TransferFailed" by (simp add: eval_defs)
  show ?thesis
    using second_claim_rejected [of None ?s 7 0 ?s' "receiver None" "[(8, 0, None)]" 5
        "Some TransferFailed" ?s 7 0 TransferFailed] g k f
    by simp
qed

text \<open>
  Claim C5 as stated fails on a pool of one share: the identity that took the share calls
  again and the call reverts with \<open>All red packets grabbed\<close>, not with
  \<open>Already grabbed\<close>.
\<close>

theorem second_claim_counterexample:
  "grabRedPacket (receiver None) (projr (constructor 1 1 True 5)) 7 0 =
     Inr (projr (grabRedPacket (receiver None) (projr (constructor 1 1 True 5)) 7 0)) \<and>
   grabRedPacket (receiver None)
     (projr (grabRedPacket (receiver None) (projr (constructor 1 1 True 5)) 7 0)) 7 0 =
     Inl (Require ''All red packets grabbed'') \<and>
   grabRedPacket (receiver None)
     (projr (grabRedPacket (receiver None) (projr (constructor 1 1 True 5)) 7 0)) 7 0 \<noteq>
     Inl (Require ''Already grabbed'')"
  by (simp add: eval_defs)

subsection \<open>Deployment\<close>

text \<open>
  Claim C4, as the code has it. The constructor reverts, with \<open>Count must be > 0\<close>,
  exactly when \<open>_count\<close> is 0. A contract that is deployed has \<open>count = _count > 0\<close>,
  \<open>totalAmount = msg.value\<close>, whatever that value is, and nobody marked.
\<close>

theorem constructor_checks:
  "(isl (constructor sender cnt eq val) \<longleftrightarrow> cnt = 0) \<and>
   (constructor sender cnt eq val = Inl (Require ''Count must be > 0'') \<longleftrightarrow> cnt = 0) \<and>
   (constructor sender cnt eq val = Inr s \<longrightarrow>
      0 < count s \<and> count s = cnt \<and> totalAmount s = val \<and> isEqual s = eq \<and> claimed s = {})"
  by (auto simp: constructor_def claimed_def word_greater_zero_iff)

theorem constructor_checks_witness:
  "constructor 1 3 False 0 = Inr (projr (constructor 1 3 False 0)) \<and>
   \<not> isl (constructor 1 3 False 0) \<and>
   0 < count (projr (constructor 1 3 False 0)) \<and>
   totalAmount (projr (constructor 1 3 False 0)) = 0"
proof -
  have c: "constructor 1 3 False 0 = Inr (projr (constructor 1 3 False 0))"
    by (simp add: constructor_def)
  show ?thesis
    using constructor_checks [of 1 3 False 0 "projr (constructor 1 3 False 0)"] c by simp
qed

text \<open>
  Claim C4 as stated fails for a deployment that sends no ether: it succeeds, and
  \<open>totalAmount\<close> is 0.
\<close>

theorem constructor_counterexample:
  "constructor 1 3 False 0 = Inr (projr (constructor 1 3 False 0)) \<and>
   \<not> (0 < count (projr (constructor 1 3 False 0)) \<and>
      0 < totalAmount (projr (constructor 1 3 False 0)))"
  by (simp add: constructor_def)

subsection \<open>A pool with fewer units than shares\<close>

lemma grab_range_zero:
  assumes "\<not> isEqual s" and "count s \<noteq> 1" and "unat (totalAmount s) < unat (count s)"
    and "0 < totalAmount s" and "isGrabbed s who = 0"
  shows "grabRedPacket recv s who rand = Inl (Panic 0x12)"
proof -
  have "0 < count s" using assms(3) by (simp add: word_less_nat_alt)
  moreover have "share s rand = Inl (Panic 0x12)"
    using assms(1,2) draw_zero [OF assms(2,3)] by (simp add: share_def and_then_def)
  ultimately show ?thesis
    using assms(4,5) by (simp add: grabRedPacket_def Let_def and_then_def)
qed

text \<open>
  Claim C1. With \<open>totalAmount = 1\<close> and \<open>count = 2\<close> in random mode, \<open>avg\<close>, \<open>max\<close>,
  \<open>min\<close> and \<open>range\<close> are all 0, and every call of \<open>grabRedPacket\<close> reverts with
  \<open>Panic(0x12)\<close>, the modulus by zero in \<open>rand % range\<close>, whoever calls and whatever the
  digest.
\<close>

theorem range_zero_reverts:
  "checked_sub (1 div 2 * 2) (1 div 2 div 100) = Inr 0 \<and>
   grabRedPacket recv (projr (constructor c 2 False 1)) who rand = Inl (Panic 0x12)"
proof -
  have "grabRedPacket recv (projr (constructor c 2 False 1)) who rand = Inl (Panic 0x12)"
    by (rule grab_range_zero) (simp_all add: constructor_Inr)
  then show ?thesis by (simp add: checked_sub_def)
qed

text \<open>
  Claim C2. A random-mode contract deployed with 2 shares and 1 wei never pays: every
  transaction reverts, so the state stays as deployed and nothing is sent.
\<close>

theorem no_claim_succeeds:
  "run (projr (constructor c 2 False 1)) txs = projr (constructor c 2 False 1) \<and>
   sent (run (projr (constructor c 2 False 1)) txs) = []"
proof -
  let ?s = "projr (constructor c 2 False 1)"
  have "run ?s txs = ?s"
  proof (rule run_invariant [where P = "\<lambda>u. u = ?s"])
    fix u who rand rej u'
    assume "u = ?s" and "grabRedPacket (receiver rej) u who rand = Inr u'"
    moreover have "grabRedPacket (receiver rej) ?s who rand = Inl (Panic 0x12)"
      by (rule grab_range_zero) (simp_all add: constructor_Inr)
    ultimately show "u' = ?s" by simp
  qed simp
  then show ?thesis by (simp add: constructor_Inr)
qed

subsection \<open>Conservation\<close>

text \<open>
  Where the random branch cannot meet \<open>range = 0\<close>, that is in equal mode and in random
  mode with at least one wei per share, the shares add up: as many calls as there are
  shares, by distinct identities that accept the ether, all succeed, in the order they
  are made, they send \<open>msg.value\<close> in total and leave nothing.
\<close>

lemma share_defined:
  assumes "count u \<noteq> 0" and "isEqual u \<or> count u = 1 \<or> count u \<le> totalAmount u"
  shows "\<exists>a. share u rand = Inr a"
proof (cases "count u = 1 \<or> isEqual u")
  case True
  then show ?thesis using assms(1) by (auto simp: share_def checked_div_def)
next
  case False
  then have le: "unat (count u) \<le> unat (totalAmount u)"
    using assms(2) by (simp add: word_le_nat_alt)
  have two: "2 \<le> unat (count u)"
    using two_le_count [of u] False assms(1) by (simp add: word_greater_zero_iff)
  from draw_pos [OF two le, of rand] obtain d where "draw u rand = Inr d" by blast
  then show ?thesis using False by (simp add: share_def and_then_def)
qed

lemma enough_left_nat:
  fixes T N a :: nat
  assumes "2 \<le> N" and "N \<le> T" and "a < 2 * (T div N)"
  shows "N - 1 \<le> T - a"
proof -
  let ?q = "T div N"
  have q: "1 \<le> ?q" using assms(1,2) by (simp add: div_greater_zero_iff Suc_le_eq)
  have "?q * N \<le> T" by (rule div_times_less_eq_dividend)
  moreover have "?q * N = 2 * ?q + ?q * (N - 2)"
    using assms(1) by (simp add: algebra_simps flip: distrib_left)
  moreover have "N - 2 \<le> ?q * (N - 2)" using q by simp
  ultimately have "2 * ?q + (N - 2) \<le> T" by arith
  then show ?thesis using assms(1,3) by arith
qed

lemma enough_left:
  assumes "share u rand = Inr a" and "count u \<noteq> 0" and "\<not> isEqual u"
    and "count u \<le> totalAmount u"
  shows "count u - 1 \<le> totalAmount u - a"
proof (cases "count u = 1")
  case True
  then show ?thesis by simp
next
  case False
  from assms(1,3) False obtain d where d: "draw u rand = Inr d"
    and a: "a = (if totalAmount u < d then totalAmount u else d)"
    by (auto simp: share_def and_then_def split: sum.splits)
  note b = draw_Inr [OF False d]
  have ad: "a = d" using a b(4,5) by (simp add: word_less_nat_alt)
  have two: "2 \<le> unat (count u)"
    using two_le_count [of u] False assms(2) by (simp add: word_greater_zero_iff)
  have le: "unat (count u) \<le> unat (totalAmount u)" using assms(4) by (simp add: word_le_nat_alt)
  have "unat (count u) - 1 \<le> unat (totalAmount u) - unat a"
    using enough_left_nat [OF two le] b(4) ad by simp
  moreover have "unat (count u - 1) = unat (count u) - 1" using assms(2) by (rule unat_minus_one)
  moreover have "unat (totalAmount u - a) = unat (totalAmount u) - unat a"
    using share_le [OF assms(1)] by (rule unat_sub)
  ultimately show ?thesis by (simp add: word_le_nat_alt)
qed

lemma conservation_from:
  assumes "unat (count u) = length txs" and "distinct (map fst txs)"
    and "\<forall>t \<in> set txs. isGrabbed u (fst t) = 0 \<and> snd (snd t) = None"
    and "count u = 0 \<longrightarrow> totalAmount u = 0" and "count u \<noteq> 0 \<longrightarrow> totalAmount u \<noteq> 0"
    and "totalAmount u \<le> balance u" and "isEqual u \<or> count u \<le> totalAmount u"
  shows "count (run u txs) = 0 \<and> totalAmount (run u txs) = 0 \<and>
         map fst (sent (run u txs)) = map fst (sent u) @ map fst txs \<and>
         paid (run u txs) = paid u + unat (totalAmount u)"
  using assms
proof (induction txs arbitrary: u)
  case Nil
  then show ?case by (simp add: unat_eq_zero)
next
  case (Cons t rest)
  obtain who rand rej where t: "t = (who, rand, rej)" by (cases t)
  have acc: "rej = None" and free: "isGrabbed u who = 0" using Cons.prems(3) t by auto
  have n0: "count u \<noteq> 0" using Cons.prems(1) by auto
  then have t0: "totalAmount u \<noteq> 0" using Cons.prems(5) by simp
  have "isEqual u \<or> count u = 1 \<or> count u \<le> totalAmount u" using Cons.prems(7) by blast
  with n0 obtain a where a: "share u rand = Inr a" using share_defined by blast
  have aT: "a \<le> totalAmount u" using a by (rule share_le)
  then have aB: "a \<le> balance u" using Cons.prems(6) by simp
  let ?u' = "u\<lparr> isGrabbed := (isGrabbed u)(who := 1), balance := balance u - a,
                sent := sent u @ [(who, a)], totalAmount := totalAmount u - a,
                count := count u - 1, events := events u @ [Grabbed who a] \<rparr>"
  have g: "grabRedPacket (receiver rej) u who rand = Inr ?u'"
    using n0 t0 free a aB acc by (simp add: grab_receiver not_less)
  have step: "apply_tx u t = ?u'" using g t by simp
  have len: "unat (count u) = Suc (length rest)" using Cons.prems(1) by simp
  have "unat (count u - 1) = unat (count u) - 1" using n0 by (rule unat_minus_one)
  then have len': "unat (count u - 1) = length rest" using len by arith
  have cu': "count ?u' = count u - 1" by simp
  have c1: "unat (count ?u') = length rest" by (simp only: cu' len')
  have c2: "distinct (map fst rest)" using Cons.prems(2) by simp
  have c3: "\<forall>x \<in> set rest. isGrabbed ?u' (fst x) = 0 \<and> snd (snd x) = None"
    using Cons.prems(2,3) t by auto
  have c4: "count ?u' = 0 \<longrightarrow> totalAmount ?u' = 0"
  proof (cases "count u = 1")
    case True
    then have "a = totalAmount u" using a by (simp add: share_def)
    then show ?thesis by simp
  next
    case False
    then show ?thesis by simp
  qed
  have "0 < count ?u' \<longrightarrow> 0 < totalAmount ?u'" using g by (rule positive_step)
  then have c5: "count ?u' \<noteq> 0 \<longrightarrow> totalAmount ?u' \<noteq> 0"
    by (simp only: word_greater_zero_iff)
  have c6: "totalAmount ?u' \<le> balance ?u'"
    using aT aB Cons.prems(6) by (simp add: word_le_nat_alt unat_sub)
  have c7: "isEqual ?u' \<or> count ?u' \<le> totalAmount ?u'"
    using Cons.prems(7) enough_left [OF a n0] by auto
  note ih = Cons.IH [OF c1 c2 c3 c4 c5 c6 c7]
  have p: "paid ?u' + unat (totalAmount ?u') = paid u + unat (totalAmount u)"
    using aT by (simp add: paid_def unat_sub word_le_nat_alt)
  show ?case using ih p step t by simp
qed

lemma conservation:
  assumes "constructor c n eq v = Inr s0" and "0 < v" and "eq \<or> n \<le> v"
    and "length txs = unat n" and "distinct (map fst txs)"
    and "\<forall>t \<in> set txs. snd (snd t) = None"
  shows "map fst (sent (run s0 txs)) = map fst txs \<and> paid (run s0 txs) = unat v \<and>
         count (run s0 txs) = 0 \<and> totalAmount (run s0 txs) = 0"
proof -
  have s0: "s0 = \<lparr> yideng = c, totalAmount = v, count = n, isEqual = eq,
                  isGrabbed = (\<lambda>_. 0), balance = v, sent = [], events = [] \<rparr>" and n: "n \<noteq> 0"
    using assms(1) by (auto simp: constructor_def split: if_splits)
  have "count (run s0 txs) = 0 \<and> totalAmount (run s0 txs) = 0 \<and>
         map fst (sent (run s0 txs)) = map fst (sent s0) @ map fst txs \<and>
         paid (run s0 txs) = paid s0 + unat (totalAmount s0)"
    using assms(2-6) n by (intro conservation_from) (auto simp: s0)
  then show ?thesis by (simp add: s0 paid_def)
qed

lemma conservation_example:
  "map fst (sent (run (projr (constructor 1 2 False 100)) [(7, 199, None), (8, 0, None)])) = [7, 8] \<and>
   paid (run (projr (constructor 1 2 False 100)) [(7, 199, None), (8, 0, None)]) = 100 \<and>
   sent (run (projr (constructor 1 2 False 100)) [(7, 199, None), (8, 0, None)]) = [(7, 99), (8, 1)]"
proof -
  have c: "constructor 1 2 False 100 = Inr (projr (constructor 1 2 False 100))"
    by (simp add: constructor_def)
  have s: "sent (run (projr (constructor 1 2 False 100)) [(7, 199, None), (8, 0, None)]) = [(7, 99), (8, 1)]"
    by (simp add: eval_defs)
  show ?thesis
    using conservation [OF c, of "[(7, 199, None), (8, 0, None)]"] s by simp
qed

subsection \<open>Recipients that call back\<close>

text \<open>The state on which the recipient's code runs.\<close>

lemma grab_recv:
  assumes "grabRedPacket recv s who rand = Inr s'"
  obtains amount s2 where "count s \<noteq> 0" and "totalAmount s \<noteq> 0" and "isGrabbed s who = 0"
    and "share s rand = Inr amount"
    and "recv (s\<lparr> isGrabbed := (isGrabbed s)(who := 1), balance := balance s - amount,
                   sent := sent s @ [(who, amount)] \<rparr>) = Inr s2"
    and "s' = s2\<lparr> totalAmount := totalAmount s2 - amount, count := count s2 - 1,
                  events := events s2 @ [Grabbed who amount] \<rparr>"
  using assms
  by (auto simp: grabRedPacket_def Let_def and_then_def transfer_def checked_sub_def
        word_greater_zero_iff split: if_splits sum.splits)

lemma exec_execs_preserve:
  assumes enter: "\<And>u who a. P u \<Longrightarrow> isGrabbed u who = 0 \<Longrightarrow>
      P (u\<lparr> isGrabbed := (isGrabbed u)(who := 1), balance := balance u - a,
             sent := sent u @ [(who, a)] \<rparr>)"
    and settle: "\<And>u t n ev. P u \<Longrightarrow> P (u\<lparr> totalAmount := t, count := n, events := ev \<rparr>)"
  shows "P s \<longrightarrow> (\<forall>s'. exec c s = Inr s' \<longrightarrow> P s')" and "P s \<longrightarrow> P (execs cs s)"
proof (induction c s and cs s rule: exec_execs.induct)
  case (1 sender rand inner rej s)
  show ?case
  proof (intro impI allI)
    fix s'
    assume p: "P s" and e: "exec (Call sender rand inner rej) s = Inr s'"
    from e have g: "grabRedPacket
        (\<lambda>s1. case rej of None \<Rightarrow> Inr (execs inner s1) | Some e \<Rightarrow> Inl e) s sender rand = Inr s'"
      by simp
    from g obtain amount s2 where f: "isGrabbed s sender = 0"
      and r: "(case rej of
                 None \<Rightarrow> Inr (execs inner (s\<lparr> isGrabbed := (isGrabbed s)(sender := 1),
                   balance := balance s - amount, sent := sent s @ [(sender, amount)] \<rparr>))
               | Some e \<Rightarrow> Inl e) = Inr s2"
      and s': "s' = s2\<lparr> totalAmount := totalAmount s2 - amount, count := count s2 - 1,
                  events := events s2 @ [Grabbed sender amount] \<rparr>"
      by (rule grab_recv) simp
    let ?t = "s\<lparr> isGrabbed := (isGrabbed s)(sender := 1),
                 balance := balance s - amount, sent := sent s @ [(sender, amount)] \<rparr>"
    have acc: "rej = None" and s2: "s2 = execs inner ?t" using r by (auto split: option.splits)
    have "P ?t" using p f by (rule enter)
    then have "P s2" using "1.IH" [OF acc, of ?t] s2 by simp
    then show "P s'" unfolding s' by (rule settle)
  qed
next
  case (2 s)
  show ?case by simp
next
  case (3 c cs s)
  show ?case
  proof (cases "exec c s")
    case (Inl e)
    then show ?thesis using 3(2) by simp
  next
    case (Inr b)
    then show ?thesis using 3(1,3) by simp
  qed
qed

lemma marked_execs:
  "isGrabbed s who \<noteq> 0 \<Longrightarrow> isGrabbed (execs cs s) who \<noteq> 0"
  using exec_execs_preserve(2) [where P = "\<lambda>u. isGrabbed u who \<noteq> 0"] by simp

lemma paid_once_execs:
  assumes "distinct (map fst (sent s))" and "fst ` set (sent s) \<subseteq> claimed s"
  shows "distinct (map fst (sent (execs cs s)))"
proof -
  let ?I = "\<lambda>u. distinct (map fst (sent u)) \<and> fst ` set (sent u) \<subseteq> claimed u"
  have "?I s \<longrightarrow> ?I (execs cs s)"
  proof (rule exec_execs_preserve(2) [where P = ?I])
    fix u :: state and who a
    assume "?I u" and "isGrabbed u who = 0"
    then show "?I (u\<lparr> isGrabbed := (isGrabbed u)(who := 1), balance := balance u - a,
             sent := sent u @ [(who, a)] \<rparr>)"
      by (auto simp: claimed_def)
  next
    fix u :: state and t n ev
    assume "?I u"
    then show "?I (u\<lparr> totalAmount := t, count := n, events := ev \<rparr>)"
      by (simp add: claimed_def)
  qed
  then show ?thesis using assms by simp
qed

lemma grab_marked_any:
  assumes "isGrabbed u who \<noteq> 0"
  shows "grabRedPacket recv u who rand =
     Inl (if count u = 0 then Require ''All red packets grabbed''
          else if totalAmount u = 0 then Require ''No money left''
          else Require ''Already grabbed'')"
  using assms by (simp add: grabRedPacket_def word_greater_zero_iff)

lemma grab_recv_marked:
  "grabRedPacket recv s who rand =
   grabRedPacket (\<lambda>t. if isGrabbed t who = 1 then recv t else Inl TransferFailed) s who rand"
  by (simp add: grabRedPacket_def Let_def and_then_def transfer_def split: sum.splits)

lemma execs_append: "execs (xs @ ys) s = execs ys (execs xs s)"
  by (induction xs arbitrary: s) (auto split: sum.splits)

lemma reentry_dropped:
  "exec (Call who rand (pre @ Call who r inner rej # post) k) s =
   exec (Call who rand (pre @ post) k) s"
proof -
  let ?c = "Call who r inner rej"
  have same: "execs (pre @ ?c # post) t = execs (pre @ post) t" if m: "isGrabbed t who = 1" for t
  proof -
    have "isGrabbed (execs pre t) who \<noteq> 0" using m by (intro marked_execs) simp
    then have "isl (exec ?c (execs pre t))" by (simp add: grab_marked_any)
    then have "execs (?c # post) (execs pre t) = execs post (execs pre t)"
      by (cases "exec ?c (execs pre t)") simp_all
    then show ?thesis by (simp add: execs_append)
  qed
  let ?f = "\<lambda>cs t. case k of None \<Rightarrow> Inr (execs cs t) | Some e \<Rightarrow> Inl e"
  have "(if isGrabbed t who = 1 then ?f (pre @ ?c # post) t else Inl TransferFailed) =
        (if isGrabbed t who = 1 then ?f (pre @ post) t else Inl TransferFailed)" for t
  proof (cases "isGrabbed t who = 1")
    case True
    then show ?thesis using same [OF True] by (cases k) simp_all
  next
    case False
    then show ?thesis by simp
  qed
  then have "(\<lambda>t. if isGrabbed t who = 1 then ?f (pre @ ?c # post) t else Inl TransferFailed) =
        (\<lambda>t. if isGrabbed t who = 1 then ?f (pre @ post) t else Inl TransferFailed)"
    by (intro ext)
  then show ?thesis
    using grab_recv_marked [of "?f (pre @ ?c # post)" s who rand]
      grab_recv_marked [of "?f (pre @ post)" s who rand]
    by simp
qed

text \<open>
  Claim C3. The recipient's code runs only on a state in which the caller is already
  marked in \<open>isGrabbed\<close>: the write precedes the transfer. A call by the same identity
  from inside its own payout therefore reverts and changes nothing, wherever it stands
  among the calls the recipient makes (first and second part), and so does every call
  by a marked identity, after whatever other calls. In every execution from a
  deployed contract, with recipients calling back at will, no identity receives two
  transfers.
\<close>

theorem marked_before_transfer:
  "grabRedPacket recv s who rand =
     grabRedPacket (\<lambda>t. if isGrabbed t who = 1 then recv t else Inl TransferFailed) s who rand \<and>
   exec (Call who rand (before @ Call who r inner rej # after) k) s =
     exec (Call who rand (before @ after) k) s \<and>
   (isGrabbed t who \<noteq> 0 \<longrightarrow>
      exec (Call who r inner rej) (execs pre t) =
        Inl (if count (execs pre t) = 0 then Require ''All red packets grabbed''
             else if totalAmount (execs pre t) = 0 then Require ''No money left''
             else Require ''Already grabbed'')) \<and>
   (constructor c n eq v = Inr s0 \<longrightarrow> distinct (map fst (sent (execs cs s0))))"
proof -
  have again: "exec (Call who r inner rej) (execs pre t) =
        Inl (if count (execs pre t) = 0 then Require ''All red packets grabbed''
             else if totalAmount (execs pre t) = 0 then Require ''No money left''
             else Require ''Already grabbed'')"
    if "isGrabbed t who \<noteq> 0"
    using marked_execs [OF that, of pre] by (simp add: grab_marked_any)
  have once: "distinct (map fst (sent (execs cs s0)))" if h: "constructor c n eq v = Inr s0"
  proof -
    have "sent s0 = []"
      using h by (auto simp: constructor_def split: if_splits)
    then show ?thesis by (intro paid_once_execs) simp_all
  qed
  show ?thesis
    using grab_recv_marked [of recv s who rand] reentry_dropped [of who rand before r inner rej after k s]
      again once
    by blast
qed


theorem marked_before_transfer_witness:
  "isGrabbed ((projr (constructor 1 3 True 90))\<lparr> isGrabbed := (\<lambda>_. 0)(7 := 1), balance := 60,
       sent := [(7, 30)] \<rparr>) 7 \<noteq> 0 \<and>
   exec (Call 7 5 [] None)
     (execs [] ((projr (constructor 1 3 True 90))\<lparr> isGrabbed := (\<lambda>_. 0)(7 := 1), balance := 60,
       sent := [(7, 30)] \<rparr>)) = Inl (Require ''Already grabbed'') \<and>
   constructor 1 3 True 90 = Inr (projr (constructor 1 3 True 90)) \<and>
   distinct (map fst (sent (execs [Call 7 0 [Call 7 5 [] None, Call 8 0 [] None] None]
     (projr (constructor 1 3 True 90))))) \<and>
   sent (execs [Call 7 0 [Call 7 5 [] None, Call 8 0 [] None] None]
     (projr (constructor 1 3 True 90))) = [(7, 30), (8, 30)]"
proof -
  let ?s = "projr (constructor 1 3 True 90)"
  let ?t = "?s\<lparr> isGrabbed := (\<lambda>_. 0)(7 := 1), balance := 60, sent := [(7, 30)] \<rparr>"
  let ?cs = "[Call 7 0 [Call 7 5 [] None, Call 8 0 [] None] None]"
  have c: "constructor 1 3 True 90 = Inr ?s" by (simp add: constructor_def)
  have m: "isGrabbed ?t 7 \<noteq> 0" by simp
  have k: "count (execs [] ?t) \<noteq> 0 \<and> totalAmount (execs [] ?t) \<noteq> 0"
    by (simp add: constructor_Inr)
  have e: "sent (execs ?cs ?s) = [(7, 30), (8, 30)]"
    by (simp add: constructor_Inr grabRedPacket_def transfer_def share_def and_then_def
          checked_div_def checked_sub_def)
  show ?thesis
    using marked_before_transfer [of "receiver None" ?s 7 0 "[]" 5 "[]" None "[]" None
        ?t "[]" 1 3 True 90 ?s ?cs]
      c m k e
    by simp
qed

text \<open>
  The invariants of the ledger rest on the stipend. Were a recipient able to call back,
  a second identity could take a share computed from a \<open>totalAmount\<close> that the first
  call has not yet decreased: here the two shares of a pool of 100 go for 30 and 60, and
  10 stay in the contract with \<open>count = 0\<close>.
\<close>

lemma callback_leaves_dust:
  "count (execs [Call 7 30 [Call 8 60 [] None] None] (projr (constructor 1 2 False 100))) = 0 \<and>
   totalAmount (execs [Call 7 30 [Call 8 60 [] None] None] (projr (constructor 1 2 False 100))) = 10 \<and>
   sent (execs [Call 7 30 [Call 8 60 [] None] None] (projr (constructor 1 2 False 100))) = [(7, 30), (8, 60)]"
  by (simp add: constructor_Inr grabRedPacket_def transfer_def share_def draw_def and_then_def
        checked_div_def checked_mul_def checked_sub_def checked_mod_def checked_add_def)

end
